theory Spec2Isabelle
  imports Main "HOL-Library.AList"
begin

section \<open>Strings, dictionaries and errors\<close>

text \<open>
  The program of \<^verbatim>\<open>dependency_visualizer.py\<close> reads the text of a Debian
  \<^verbatim>\<open>Packages\<close> file, builds the dependency graph of one package by a
  depth-first search, and prints it in Graphviz syntax. The three functions
  \<^verbatim>\<open>parse_packages_data\<close>, \<^verbatim>\<open>build_dependency_graph\<close> and
  \<^verbatim>\<open>generate_graphviz_code\<close> are embedded here.

  A Python \<^verbatim>\<open>str\<close> is a \<^typ>\<open>string\<close>; a \<^typ>\<open>char\<close> stands for a code point
  below 256. Every exception the Python code can raise is a value of \<open>error\<close>, and a
  function that can raise returns \<open>error + 'a\<close>.
\<close>

datatype error =
    KeyError
  | IndexError
  | ValueError
  | RecursionError
  | PackageNotFound string

text \<open>
  \<^verbatim>\<open>str.isspace\<close> on one character. Below code point 256 the whitespace of Python
  is 0x09 to 0x0D, 0x1C to 0x20, 0x85 and 0xA0.
\<close>

definition isspace :: "char \<Rightarrow> bool" where
  "isspace c =
     (let n = (of_char c :: nat)
      in (9 \<le> n \<and> n \<le> 13) \<or> (28 \<le> n \<and> n \<le> 32) \<or> n = 133 \<or> n = 160)"

text \<open>\<^verbatim>\<open>s.strip()\<close>: leading and trailing whitespace removed.\<close>

definition strip :: "string \<Rightarrow> string" where
  "strip s = rev (dropWhile isspace (rev (dropWhile isspace s)))"

text \<open>
  \<^verbatim>\<open>s.split(sep)\<close> for a separator of one character: the piece before the first
  separator, then the split of what follows it. The result is never the empty list.
\<close>

function split_on :: "'a \<Rightarrow> 'a list \<Rightarrow> 'a list list" where
  "split_on sep s =
     (case dropWhile (\<lambda>c. c \<noteq> sep) s of
        [] \<Rightarrow> [s]
      | _ # rest \<Rightarrow> takeWhile (\<lambda>c. c \<noteq> sep) s # split_on sep rest)"
  by pat_completeness auto
termination
proof (relation "measure (\<lambda>(sep, s). length s)")
  fix sep :: 'a and s x21 x22
  assume "dropWhile (\<lambda>c. c \<noteq> sep) s = x21 # x22"
  then have "length s = length (takeWhile (\<lambda>c. c \<noteq> sep) s) + Suc (length x22)"
    by (metis length_Cons length_append takeWhile_dropWhile_id)
  then show "((sep, x22), (sep, s)) \<in> measure (\<lambda>(sep, s). length s)"
    by simp
qed simp

declare split_on.simps [simp del]

text \<open>\<^verbatim>\<open>s.split(sep, 1)\<close>: at most one split, at the first separator.\<close>

definition split_once :: "'a \<Rightarrow> 'a list \<Rightarrow> 'a list list" where
  "split_once sep s =
     (case dropWhile (\<lambda>c. c \<noteq> sep) s of
        [] \<Rightarrow> [s]
      | _ # rest \<Rightarrow> [takeWhile (\<lambda>c. c \<noteq> sep) s, rest])"

text \<open>\<^verbatim>\<open>sep.join(parts)\<close>.\<close>

fun join :: "'a list \<Rightarrow> 'a list list \<Rightarrow> 'a list" where
  "join sep [] = []"
| "join sep [x] = x"
| "join sep (x # y # ys) = x @ sep @ join sep (y # ys)"

text \<open>\<^verbatim>\<open>xs[0]\<close>, which raises \<^verbatim>\<open>IndexError\<close> on the empty list.\<close>

definition index0 :: "'a list \<Rightarrow> error + 'a" where
  "index0 xs = (case xs of [] \<Rightarrow> Inl IndexError | x # _ \<Rightarrow> Inr x)"

text \<open>
  A Python \<^verbatim>\<open>dict\<close> is an association list with distinct keys, in insertion order.
  \<open>dict_set\<close> is \<^verbatim>\<open>d[k] = v\<close>: an existing key keeps its place and gets the new
  value, a new key goes to the end.
\<close>

type_synonym ('k, 'v) dict = "('k \<times> 'v) list"

definition dict_contains :: "('k, 'v) dict \<Rightarrow> 'k \<Rightarrow> bool" where
  "dict_contains d k = (map_of d k \<noteq> None)"

definition dict_index :: "('k, 'v) dict \<Rightarrow> 'k \<Rightarrow> error + 'v" where
  "dict_index d k = (case map_of d k of None \<Rightarrow> Inl KeyError | Some v \<Rightarrow> Inr v)"

definition dict_get :: "('k, 'v) dict \<Rightarrow> 'k \<Rightarrow> 'v \<Rightarrow> 'v" where
  "dict_get d k dflt = (case map_of d k of None \<Rightarrow> dflt | Some v \<Rightarrow> v)"

definition dict_set :: "('k, 'v) dict \<Rightarrow> 'k \<Rightarrow> 'v \<Rightarrow> ('k, 'v) dict" where
  "dict_set d k v = AList.update k v d"

section \<open>The metadata parser\<close>

type_synonym package_index = "(string, string list) dict"
type_synonym package_record = "(string, string) dict"

text \<open>
  \<^verbatim>\<open>dep.strip().split(' ')[0]\<close>, the body of the list comprehension of
  \<^verbatim>\<open>parse_packages_data\<close>.
\<close>

definition dep_name :: "string \<Rightarrow> error + string" where
  "dep_name dep = index0 (split_on (CHR '' '') (strip dep))"

text \<open>A list comprehension whose body can raise: the first exception ends it.\<close>

fun comprehension :: "('a \<Rightarrow> error + 'b) \<Rightarrow> 'a list \<Rightarrow> error + 'b list" where
  "comprehension f [] = Inr []"
| "comprehension f (x # xs) =
     (case f x of
        Inl e \<Rightarrow> Inl e
      | Inr y \<Rightarrow> (case comprehension f xs of Inl e \<Rightarrow> Inl e | Inr ys \<Rightarrow> Inr (y # ys)))"

text \<open>
  \<^verbatim>\<open>[dep.strip().split(' ')[0] for dep in depends.split(',')] if depends else []\<close>
\<close>

definition parse_depends :: "string \<Rightarrow> error + string list" where
  "parse_depends depends =
     (if depends \<noteq> [] then comprehension dep_name (split_on (CHR '','') depends)
      else Inr [])"

text \<open>
  The body of \<^verbatim>\<open>if line.strip() == ''\<close> up to the reset of
  \<^verbatim>\<open>current_package\<close>: a record with a \<^verbatim>\<open>Package\<close> field is stored in the index.
\<close>

definition commit_record :: "package_index \<Rightarrow> package_record \<Rightarrow> error + package_index" where
  "commit_record packages_info current_package =
     (if dict_contains current_package ''Package'' then
        (case dict_index current_package ''Package'' of
           Inl e \<Rightarrow> Inl e
         | Inr package_name \<Rightarrow>
             (case parse_depends (dict_get current_package ''Depends'' '''') of
                Inl e \<Rightarrow> Inl e
              | Inr depends \<Rightarrow> Inr (dict_set packages_info package_name depends)))
      else Inr packages_info)"

text \<open>
  The \<^verbatim>\<open>else\<close> branch: a line with a colon is split at the first colon and stored
  in the current record. Unpacking \<^verbatim>\<open>key, value = ...\<close> raises \<^verbatim>\<open>ValueError\<close>
  unless the list has two elements.
\<close>

definition add_line :: "package_record \<Rightarrow> string \<Rightarrow> error + package_record" where
  "add_line current_package line =
     (if CHR '':'' \<in> set line then
        (case split_once (CHR '':'') line of
           [key, val] \<Rightarrow> Inr (dict_set current_package (strip key) (strip val))
         | _ \<Rightarrow> Inl ValueError)
      else Inr current_package)"

text \<open>One iteration of the loop over the lines, on the state of the two dictionaries.\<close>

definition process_line ::
  "package_index \<times> package_record \<Rightarrow> string \<Rightarrow> error + package_index \<times> package_record" where
  "process_line st line =
     (case st of (packages_info, current_package) \<Rightarrow>
        if strip line = [] then
          (case commit_record packages_info current_package of
             Inl e \<Rightarrow> Inl e
           | Inr packages_info' \<Rightarrow> Inr (packages_info', []))
        else
          (case add_line current_package line of
             Inl e \<Rightarrow> Inl e
           | Inr current_package' \<Rightarrow> Inr (packages_info, current_package')))"

fun parse_loop ::
  "package_index \<times> package_record \<Rightarrow> string list \<Rightarrow> error + package_index \<times> package_record" where
  "parse_loop st [] = Inr st"
| "parse_loop st (line # lines) =
     (case process_line st line of
        Inl e \<Rightarrow> Inl e
      | Inr st' \<Rightarrow> parse_loop st' lines)"

definition parse_packages_data :: "string \<Rightarrow> error + package_index" where
  "parse_packages_data packages_data =
     (case parse_loop ([], []) (split_on (CHR ''\<newline>'') packages_data) of
        Inl e \<Rightarrow> Inl e
      | Inr (packages_info, current_package) \<Rightarrow> Inr packages_info)"

section \<open>The dependency graph builder\<close>

text \<open>
  The graph is a \<^verbatim>\<open>defaultdict(set)\<close>: reading \<^verbatim>\<open>graph[k]\<close> for a missing key
  inserts \<open>k\<close> with the empty set. \<open>dd_touch\<close> is the dictionary after such a read.
\<close>

type_synonym dependency_graph = "(string, string set) dict"

definition dd_touch :: "dependency_graph \<Rightarrow> string \<Rightarrow> dependency_graph" where
  "dd_touch graph k = (if dict_contains graph k then graph else dict_set graph k {})"

text \<open>\<^verbatim>\<open>graph[pkg].add(dep)\<close>\<close>

definition add_edge :: "dependency_graph \<Rightarrow> string \<Rightarrow> string \<Rightarrow> dependency_graph" where
  "add_edge graph pkg dep =
     (let graph' = dd_touch graph pkg
      in dict_set graph' pkg (insert dep (dict_get graph' pkg {})))"

text \<open>
  The nested function \<^verbatim>\<open>dfs\<close> and its \<^verbatim>\<open>for\<close> loop, on the state of
  \<^verbatim>\<open>graph\<close> and \<^verbatim>\<open>visited\<close>. Python bounds the depth of the call stack: the
  first argument after the index is the number of nested calls of \<^verbatim>\<open>dfs\<close> the
  interpreter still allows, and a call beyond it raises \<^verbatim>\<open>RecursionError\<close>.
\<close>

fun dfs ::
    "package_index \<Rightarrow> nat \<Rightarrow> string \<Rightarrow> dependency_graph \<times> string set
       \<Rightarrow> error + dependency_graph \<times> string set"
  and dfs_loop ::
    "package_index \<Rightarrow> nat \<Rightarrow> string \<Rightarrow> string list \<Rightarrow> dependency_graph \<times> string set
       \<Rightarrow> error + dependency_graph \<times> string set" where
  "dfs packages_info 0 pkg st = Inl RecursionError"
| "dfs packages_info (Suc depth) pkg (graph, visited) =
     (if pkg \<in> visited then Inr (graph, visited)
      else dfs_loop packages_info depth pkg (dict_get packages_info pkg [])
             (dd_touch graph pkg, insert pkg visited))"
| "dfs_loop packages_info depth pkg [] st = Inr st"
| "dfs_loop packages_info depth pkg (dep # dependencies) (graph, visited) =
     (case dfs packages_info depth dep (add_edge graph pkg dep, visited) of
        Inl e \<Rightarrow> Inl e
      | Inr st' \<Rightarrow> dfs_loop packages_info depth pkg dependencies st')"

text \<open>
  \<^verbatim>\<open>build_dependency_graph(package_name, packages_info)\<close>, with the depth \<open>limit\<close>
  of the call stack as a parameter.
\<close>

definition build_dependency_graph ::
  "nat \<Rightarrow> string \<Rightarrow> package_index \<Rightarrow> error + dependency_graph" where
  "build_dependency_graph limit package_name packages_info =
     (if \<not> dict_contains packages_info package_name then Inl (PackageNotFound package_name)
      else
        (case dfs packages_info limit package_name ([], {}) of
           Inl e \<Rightarrow> Inl e
         | Inr (graph, visited) \<Rightarrow> Inr graph))"

section \<open>The graph serializer\<close>

text \<open>
  \<^verbatim>\<open>generate_graphviz_code\<close> only iterates over its argument, so it is given each
  value of the graph as the list of names the iteration over it yields.
\<close>

definition edge_line :: "string \<Rightarrow> string \<Rightarrow> string" where
  "edge_line pkg dep =
     ''    '' @ [CHR 0x22] @ pkg @ [CHR 0x22] @ '' -> '' @ [CHR 0x22] @ dep @ [CHR 0x22] @ '';''"

definition generate_graphviz_code :: "(string, string list) dict \<Rightarrow> string" where
  "generate_graphviz_code graph =
     join ''\<newline>''
       ([''digraph G {''] @ concat (map (\<lambda>(pkg, deps). map (edge_line pkg) deps) graph) @ [''}''])"

text \<open>
  Python leaves the iteration order of a set open: \<open>iteration_of g g'\<close> says that \<open>g'\<close>
  lists the elements of every set of \<open>g\<close> once each, in some order, under the same keys.
\<close>

definition iteration_of :: "dependency_graph \<Rightarrow> (string, string list) dict \<Rightarrow> bool" where
  "iteration_of g g' =
     list_all2 (\<lambda>(k, s) (k', ds). k' = k \<and> set ds = s \<and> distinct ds) g g'"

section \<open>Vocabulary of the properties\<close>

text \<open>
  The dependency edges of an index: \<open>p\<close> depends on \<open>d\<close> when \<open>d\<close> is in the list the
  index holds for \<open>p\<close>; a name that is no key has no dependencies.
\<close>

definition dep_edges :: "package_index \<Rightarrow> (string \<times> string) set" where
  "dep_edges packages_info = {(p, d). d \<in> set (dict_get packages_info p [])}"

text \<open>All names of an index: its keys and the names in its dependency lists.\<close>

definition names :: "package_index \<Rightarrow> string set" where
  "names packages_info = set (map fst packages_info @ concat (map snd packages_info))"

text \<open>
  The lines of a text. A line that holds a colon is a field: its key is what stands
  before the first colon, its value what follows it, both stripped. These are the two
  strings the \<^verbatim>\<open>else\<close> branch of the parser stores (lemma \<open>add_line_eq\<close>).
\<close>

definition field_key :: "string \<Rightarrow> string" where
  "field_key line = strip (takeWhile (\<lambda>c. c \<noteq> CHR '':'') line)"

definition field_value :: "string \<Rightarrow> string" where
  "field_value line = strip (tl (dropWhile (\<lambda>c. c \<noteq> CHR '':'') line))"

definition is_field :: "string \<Rightarrow> string \<Rightarrow> bool" where
  "is_field line k = (CHR '':'' \<in> set line \<and> field_key line = k)"

text \<open>
  A record, given by its lines, has the field \<open>k\<close> with value \<open>v\<close> when some line is
  a field of key \<open>k\<close> and every such line has the value \<open>v\<close>; it lacks the field when
  no line has the key \<open>k\<close>.
\<close>

definition has_field :: "string list \<Rightarrow> string \<Rightarrow> string \<Rightarrow> bool" where
  "has_field rs k v =
     ((\<exists>l\<in>set rs. is_field l k) \<and> (\<forall>l\<in>set rs. is_field l k \<longrightarrow> field_value l = v))"

definition lacks_field :: "string list \<Rightarrow> string \<Rightarrow> bool" where
  "lacks_field rs k = (\<forall>l\<in>set rs. \<not> is_field l k)"

text \<open>
  Lines of a text hold no newline. The lines of a record are not blank, and a blank line
  is one that \<^verbatim>\<open>strip\<close> empties.
\<close>

definition text_lines :: "string list \<Rightarrow> bool" where
  "text_lines ls = (\<forall>l\<in>set ls. CHR ''\<newline>'' \<notin> set l)"

definition record_lines :: "string list \<Rightarrow> bool" where
  "record_lines rs = (\<forall>l\<in>set rs. strip l \<noteq> [] \<and> CHR ''\<newline>'' \<notin> set l)"

definition blank_lines :: "string list \<Rightarrow> bool" where
  "blank_lines bs = (\<forall>l\<in>set bs. strip l = [] \<and> CHR ''\<newline>'' \<notin> set l)"

text \<open>A well-formed dependency name: not empty, without whitespace and without comma.\<close>

definition plain_name :: "string \<Rightarrow> bool" where
  "plain_name d = (d \<noteq> [] \<and> (\<forall>c\<in>set d. \<not> isspace c \<and> c \<noteq> CHR '',''))"

text \<open>
  The dependency names of the value of a \<^verbatim>\<open>Depends\<close> field as the specification
  describes them: the value is a comma-separated list, in declaration order, and the
  name of an entry is the stripped entry up to, and not including, its first space. An
  empty value lists nothing.
\<close>

definition entry_name :: "string \<Rightarrow> string" where
  "entry_name entry = takeWhile (\<lambda>c. c \<noteq> CHR '' '') (strip entry)"

definition dep_names :: "string \<Rightarrow> string list" where
  "dep_names v = (if v = [] then [] else map entry_name (split_on (CHR '','') v))"

section \<open>Properties of the depth-first search\<close>

lemma dom_dd_touch: "dom (map_of (dd_touch g k)) = insert k (dom (map_of g))"
  by (auto simp: dd_touch_def dict_contains_def dict_set_def update_conv')

lemma map_of_dd_touch:
  "map_of (dd_touch g k) = (if k \<in> dom (map_of g) then map_of g else (map_of g)(k \<mapsto> {}))"
  by (auto simp: dd_touch_def dict_contains_def dict_set_def update_conv')

lemma map_of_add_edge:
  "map_of (add_edge g p d) =
     (map_of g)(p \<mapsto> insert d (case map_of g p of None \<Rightarrow> {} | Some s \<Rightarrow> s))"
  by (auto simp: add_edge_def Let_def dict_set_def dict_get_def update_conv' map_of_dd_touch
           split: option.splits)

lemma dom_add_edge: "dom (map_of (add_edge g p d)) = insert p (dom (map_of g))"
  by (simp add: map_of_add_edge)

lemma dfs_mono:
  shows "dfs info depth pkg st = Inr st' \<Longrightarrow> dom (map_of (fst st)) = snd st \<Longrightarrow>
     dom (map_of (fst st')) = snd st' \<and> snd st \<subseteq> snd st' \<and> pkg \<in> snd st'"
    and "dfs_loop info depth pkg ds st = Inr st' \<Longrightarrow> dom (map_of (fst st)) = snd st \<Longrightarrow> pkg \<in> snd st \<Longrightarrow>
     dom (map_of (fst st')) = snd st' \<and> snd st \<subseteq> snd st' \<and> set ds \<subseteq> snd st'"
proof (induction info depth pkg st and info depth pkg ds st arbitrary: st' and st' rule: dfs_dfs_loop.induct)
  case (1 packages_info pkg st)
  then show ?case by simp
next
  case (2 packages_info depth pkg graph visited)
  show ?case
  proof (cases "pkg \<in> visited")
    case True
    with 2 show ?thesis by auto
  next
    case False
    with "2.prems" have run: "dfs_loop packages_info depth pkg (dict_get packages_info pkg [])
             (dd_touch graph pkg, insert pkg visited) = Inr st'" by simp
    have "dom (map_of (fst (dd_touch graph pkg, insert pkg visited))) = snd (dd_touch graph pkg, insert pkg visited)"
      using "2.prems" by (simp add: dom_dd_touch)
    from "2.IH"[OF False run this] show ?thesis by auto
  qed
next
  case (3 packages_info depth pkg st)
  then show ?case by simp
next
  case (4 packages_info depth pkg dep dependencies graph visited)
  from "4.prems"(1) obtain st1 where
    r1: "dfs packages_info depth dep (add_edge graph pkg dep, visited) = Inr st1" and
    r2: "dfs_loop packages_info depth pkg dependencies st1 = Inr st'"
    by (auto split: sum.splits)
  have i1: "dom (map_of (fst (add_edge graph pkg dep, visited))) = snd (add_edge graph pkg dep, visited)"
    using "4.prems" by (auto simp: dom_add_edge)
  from "4.IH"(1)[OF r1 i1] have m1: "dom (map_of (fst st1)) = snd st1" "visited \<subseteq> snd st1" "dep \<in> snd st1"
    by auto
  have p1: "pkg \<in> snd st1" using m1(2) "4.prems"(3) by auto
  from "4.IH"(2)[OF r1 r2 m1(1) p1]
  have m2: "dom (map_of (fst st')) = snd st'" "snd st1 \<subseteq> snd st'" "set dependencies \<subseteq> snd st'"
    by auto
  show ?case using m1 m2 by auto
qed


lemma dfs_entries:
  shows "dfs info depth pkg st = Inr st' \<Longrightarrow> dom (map_of (fst st)) = snd st \<Longrightarrow>
     (\<forall>k\<in>snd st. map_of (fst st') k = map_of (fst st) k) \<and>
     (\<forall>k\<in>snd st' - snd st.
        map_of (fst st') k = Some (set (dict_get info k [])) \<and> set (dict_get info k []) \<subseteq> snd st')"
    and "dfs_loop info depth pkg ds st = Inr st' \<Longrightarrow> dom (map_of (fst st)) = snd st \<Longrightarrow> pkg \<in> snd st \<Longrightarrow>
     (\<forall>k\<in>snd st. k \<noteq> pkg \<longrightarrow> map_of (fst st') k = map_of (fst st) k) \<and>
     map_of (fst st') pkg = Some (the (map_of (fst st) pkg) \<union> set ds) \<and>
     (\<forall>k\<in>snd st' - snd st.
        map_of (fst st') k = Some (set (dict_get info k [])) \<and> set (dict_get info k []) \<subseteq> snd st')"
proof (induction info depth pkg st and info depth pkg ds st arbitrary: st' and st' rule: dfs_dfs_loop.induct)
  case (1 packages_info pkg st)
  then show ?case by simp
next
  case (2 packages_info depth pkg graph visited)
  show ?case
  proof (cases "pkg \<in> visited")
    case True
    with 2 show ?thesis by auto
  next
    case False
    let ?st1 = "(dd_touch graph pkg, insert pkg visited)"
    from False "2.prems" have run: "dfs_loop packages_info depth pkg (dict_get packages_info pkg []) ?st1 = Inr st'"
      by simp
    have inv: "dom (map_of (fst ?st1)) = snd ?st1"
      using "2.prems" by (simp add: dom_dd_touch)
    have new: "map_of (fst ?st1) pkg = Some {}"
      using False "2.prems"(2) by (auto simp: map_of_dd_touch)
    have old: "\<forall>k\<in>visited. map_of (fst ?st1) k = map_of graph k"
      using False "2.prems"(2) by (auto simp: map_of_dd_touch)
    from "2.IH"[OF False run inv] have
      a: "\<forall>k\<in>insert pkg visited. k \<noteq> pkg \<longrightarrow> map_of (fst st') k = map_of (fst ?st1) k" and
      b: "map_of (fst st') pkg = Some (the (map_of (fst ?st1) pkg) \<union> set (dict_get packages_info pkg []))" and
      c: "\<forall>k\<in>snd st' - insert pkg visited.
        map_of (fst st') k = Some (set (dict_get packages_info k [])) \<and> set (dict_get packages_info k []) \<subseteq> snd st'"
      by auto
    from dfs_mono(2)[OF run inv] have m: "set (dict_get packages_info pkg []) \<subseteq> snd st'" by simp
    have b': "map_of (fst st') pkg = Some (set (dict_get packages_info pkg []))"
      using b new by simp
    have "\<forall>k\<in>visited. map_of (fst st') k = map_of graph k"
      using a old False by auto
    moreover have "\<forall>k\<in>snd st' - visited.
        map_of (fst st') k = Some (set (dict_get packages_info k [])) \<and> set (dict_get packages_info k []) \<subseteq> snd st'"
    proof
      fix k assume k: "k \<in> snd st' - visited"
      show "map_of (fst st') k = Some (set (dict_get packages_info k [])) \<and> set (dict_get packages_info k []) \<subseteq> snd st'"
      proof (cases "k = pkg")
        case True
        then show ?thesis using b' m by simp
      next
        case False
        then show ?thesis using c k by auto
      qed
    qed
    ultimately show ?thesis by simp
  qed
next
  case (3 packages_info depth pkg st)
  then have "st' = st" by simp
  moreover from 3 have "pkg \<in> dom (map_of (fst st))" by simp
  ultimately show ?case by auto
next
  case (4 packages_info depth pkg dep dependencies graph visited)
  let ?st0 = "(add_edge graph pkg dep, visited)"
  from "4.prems"(1) obtain st1 where
    r1: "dfs packages_info depth dep ?st0 = Inr st1" and
    r2: "dfs_loop packages_info depth pkg dependencies st1 = Inr st'"
    by (auto split: sum.splits)
  have pk: "pkg \<in> visited" "dom (map_of graph) = visited" using "4.prems" by auto
  have i0: "dom (map_of (fst ?st0)) = snd ?st0"
    using pk by (auto simp: dom_add_edge)
  from dfs_mono(1)[OF r1 i0] have m1: "dom (map_of (fst st1)) = snd st1" "visited \<subseteq> snd st1" "dep \<in> snd st1"
    by auto
  have p1: "pkg \<in> snd st1" using m1(2) pk by auto
  from dfs_mono(2)[OF r2 m1(1) p1]
  have m2: "snd st1 \<subseteq> snd st'" "set dependencies \<subseteq> snd st'" by auto
  from "4.IH"(1)[OF r1 i0] have
    a1: "\<forall>k\<in>visited. map_of (fst st1) k = map_of (add_edge graph pkg dep) k" and
    c1: "\<forall>k\<in>snd st1 - visited.
        map_of (fst st1) k = Some (set (dict_get packages_info k [])) \<and> set (dict_get packages_info k []) \<subseteq> snd st1"
    by auto
  from "4.IH"(2)[OF r1 r2 m1(1) p1] have
    a2: "\<forall>k\<in>snd st1. k \<noteq> pkg \<longrightarrow> map_of (fst st') k = map_of (fst st1) k" and
    b2: "map_of (fst st') pkg = Some (the (map_of (fst st1) pkg) \<union> set dependencies)" and
    c2: "\<forall>k\<in>snd st' - snd st1.
        map_of (fst st') k = Some (set (dict_get packages_info k [])) \<and> set (dict_get packages_info k []) \<subseteq> snd st'"
    by auto
  obtain s where s: "map_of graph pkg = Some s" using pk by auto
  have e1: "map_of (fst st1) pkg = Some (insert dep s)"
    using a1 pk s by (simp add: map_of_add_edge)
  have A: "\<forall>k\<in>visited. k \<noteq> pkg \<longrightarrow> map_of (fst st') k = map_of graph k"
    using a1 a2 m1(2) by (auto simp: map_of_add_edge)
  have B: "map_of (fst st') pkg = Some (the (map_of graph pkg) \<union> set (dep # dependencies))"
    using b2 e1 s by simp
  have C: "\<forall>k\<in>snd st' - visited.
        map_of (fst st') k = Some (set (dict_get packages_info k [])) \<and> set (dict_get packages_info k []) \<subseteq> snd st'"
  proof
    fix k assume k: "k \<in> snd st' - visited"
    show "map_of (fst st') k = Some (set (dict_get packages_info k [])) \<and> set (dict_get packages_info k []) \<subseteq> snd st'"
    proof (cases "k \<in> snd st1")
      case True
      with k pk have "k \<noteq> pkg" by auto
      with True a2 have "map_of (fst st') k = map_of (fst st1) k" by simp
      moreover from True k c1 have "map_of (fst st1) k = Some (set (dict_get packages_info k []))"
        "set (dict_get packages_info k []) \<subseteq> snd st1" by auto
      ultimately show ?thesis using m2(1) by auto
    next
      case False
      with k c2 show ?thesis by auto
    qed
  qed
  show ?case using A B C by simp
qed


lemma dfs_reach:
  shows "dfs info depth pkg st = Inr st' \<Longrightarrow>
     snd st' \<subseteq> snd st \<union> {x. (pkg, x) \<in> (dep_edges info)\<^sup>*}"
    and "dfs_loop info depth pkg ds st = Inr st' \<Longrightarrow> set ds \<subseteq> set (dict_get info pkg []) \<Longrightarrow>
     snd st' \<subseteq> snd st \<union> {x. (pkg, x) \<in> (dep_edges info)\<^sup>*}"
proof (induction info depth pkg st and info depth pkg ds st arbitrary: st' and st' rule: dfs_dfs_loop.induct)
  case (1 packages_info pkg st)
  then show ?case by simp
next
  case (2 packages_info depth pkg graph visited)
  show ?case
  proof (cases "pkg \<in> visited")
    case True
    with 2 show ?thesis by auto
  next
    case False
    with "2.prems" have run: "dfs_loop packages_info depth pkg (dict_get packages_info pkg [])
             (dd_touch graph pkg, insert pkg visited) = Inr st'" by simp
    from "2.IH"[OF False run] show ?thesis by auto
  qed
next
  case (3 packages_info depth pkg st)
  then show ?case by simp
next
  case (4 packages_info depth pkg dep dependencies graph visited)
  from "4.prems"(1) obtain st1 where
    r1: "dfs packages_info depth dep (add_edge graph pkg dep, visited) = Inr st1" and
    r2: "dfs_loop packages_info depth pkg dependencies st1 = Inr st'"
    by (auto split: sum.splits)
  have edge: "(pkg, dep) \<in> dep_edges packages_info"
    using "4.prems"(2) by (simp add: dep_edges_def)
  from "4.IH"(1)[OF r1] have
    s1: "snd st1 \<subseteq> visited \<union> {x. (dep, x) \<in> (dep_edges packages_info)\<^sup>*}" by simp
  have "{x. (dep, x) \<in> (dep_edges packages_info)\<^sup>*} \<subseteq> {x. (pkg, x) \<in> (dep_edges packages_info)\<^sup>*}"
    using edge by (auto intro: converse_rtrancl_into_rtrancl)
  with s1 have s1': "snd st1 \<subseteq> visited \<union> {x. (pkg, x) \<in> (dep_edges packages_info)\<^sup>*}" by blast
  from "4.prems"(2) have "set dependencies \<subseteq> set (dict_get packages_info pkg [])" by simp
  from "4.IH"(2)[OF r1 r2 this] s1' show ?case by auto
qed

lemma deps_in_names: "set (dict_get info k []) \<subseteq> names info"
proof (cases "map_of info k")
  case None
  then show ?thesis by (simp add: dict_get_def)
next
  case (Some ds)
  then have "(k, ds) \<in> set info" by (rule map_of_SomeD)
  then have "set ds \<subseteq> names info" by (force simp: names_def)
  with Some show ?thesis by (simp add: dict_get_def)
qed

lemma dfs_returns:
  shows "pkg \<in> names info \<Longrightarrow> card (names info - snd st) < depth \<Longrightarrow>
     dom (map_of (fst st)) = snd st \<Longrightarrow> \<exists>st'. dfs info depth pkg st = Inr st'"
    and "set ds \<subseteq> names info \<Longrightarrow> card (names info - snd st) < depth \<Longrightarrow>
     dom (map_of (fst st)) = snd st \<Longrightarrow> pkg \<in> snd st \<Longrightarrow>
     \<exists>st'. dfs_loop info depth pkg ds st = Inr st'"
proof (induction info depth pkg st and info depth pkg ds st rule: dfs_dfs_loop.induct)
  case (1 packages_info pkg st)
  then show ?case by simp
next
  case (2 packages_info depth pkg graph visited)
  show ?case
  proof (cases "pkg \<in> visited")
    case True
    then show ?thesis by simp
  next
    case False
    have fin: "finite (names packages_info - visited)" by (simp add: names_def)
    have "pkg \<in> names packages_info - visited" using False "2.prems"(1) by simp
    then have "card (names packages_info - insert pkg visited) < card (names packages_info - visited)"
      using fin by (metis Diff_insert card_Diff1_less)
    with "2.prems"(2) have c: "card (names packages_info - snd (dd_touch graph pkg, insert pkg visited)) < depth"
      by simp
    have i: "dom (map_of (fst (dd_touch graph pkg, insert pkg visited))) = snd (dd_touch graph pkg, insert pkg visited)"
      using "2.prems"(3) by (simp add: dom_dd_touch)
    from "2.IH"[OF False deps_in_names c i] False show ?thesis by simp
  qed
next
  case (3 packages_info depth pkg st)
  then show ?case by simp
next
  case (4 packages_info depth pkg dep dependencies graph visited)
  let ?st0 = "(add_edge graph pkg dep, visited)"
  have i0: "dom (map_of (fst ?st0)) = snd ?st0"
    using "4.prems" by (auto simp: dom_add_edge)
  from "4.prems"(1) have d: "dep \<in> names packages_info" by simp
  from "4.IH"(1)[OF d _ i0] "4.prems"(2) obtain st1 where
    r1: "dfs packages_info depth dep ?st0 = Inr st1" by auto
  from dfs_mono(1)[OF r1 i0] have m1: "dom (map_of (fst st1)) = snd st1" "visited \<subseteq> snd st1"
    by auto
  have "names packages_info - snd st1 \<subseteq> names packages_info - visited" using m1(2) by auto
  then have "card (names packages_info - snd st1) \<le> card (names packages_info - visited)"
    by (intro card_mono) (simp_all add: names_def)
  with "4.prems"(2) have c1: "card (names packages_info - snd st1) < depth" by simp
  have p1: "pkg \<in> snd st1" using m1(2) "4.prems"(4) by auto
  from "4.prems"(1) have "set dependencies \<subseteq> names packages_info" by simp
  from "4.IH"(2)[OF r1 this c1 m1(1) p1] r1 show ?case by simp
qed


lemma build_Inr_dfs:
  assumes "build_dependency_graph limit root info = Inr graph"
  obtains visited where "dict_contains info root"
    and "dfs info limit root ([], {}) = Inr (graph, visited)"
  using assms by (auto simp: build_dependency_graph_def split: if_splits sum.splits)

lemma build_graph_facts:
  assumes "build_dependency_graph limit root info = Inr graph"
  shows "root \<in> dom (map_of graph)"
    and "dom (map_of graph) \<subseteq> {x. (root, x) \<in> (dep_edges info)\<^sup>*}"
    and "\<forall>k\<in>dom (map_of graph).
           map_of graph k = Some (set (dict_get info k [])) \<and>
           set (dict_get info k []) \<subseteq> dom (map_of graph)"
proof -
  from assms obtain visited where
    run: "dfs info limit root ([], {}) = Inr (graph, visited)" by (rule build_Inr_dfs)
  have inv: "dom (map_of (fst ([] :: dependency_graph, {} :: string set))) = snd ([] :: dependency_graph, {} :: string set)"
    by simp
  from dfs_mono(1)[OF run inv] have m: "dom (map_of graph) = visited" "root \<in> visited" by auto
  then show "root \<in> dom (map_of graph)" by simp
  from dfs_reach(1)[OF run] m show "dom (map_of graph) \<subseteq> {x. (root, x) \<in> (dep_edges info)\<^sup>*}" by simp
  from dfs_entries(1)[OF run inv] m
  show "\<forall>k\<in>dom (map_of graph).
           map_of graph k = Some (set (dict_get info k [])) \<and>
           set (dict_get info k []) \<subseteq> dom (map_of graph)"
    by simp
qed

lemma build_returns:
  assumes "dict_contains info root" and "card (names info) < limit"
  shows "\<exists>graph. build_dependency_graph limit root info = Inr graph"
proof -
  from assms(1) obtain ds where "map_of info root = Some ds"
    by (auto simp: dict_contains_def)
  then have "(root, ds) \<in> set info" by (rule map_of_SomeD)
  then have r: "root \<in> names info" by (force simp: names_def)
  have "\<exists>st'. dfs info limit root ([], {}) = Inr st'"
    by (rule dfs_returns(1)[OF r]) (use assms(2) in simp_all)
  then show ?thesis using assms(1)
    by (auto simp: build_dependency_graph_def split: prod.splits)
qed

section \<open>Claims about the dependency graph builder\<close>

text \<open>
  Claim C1 says that for the index \<open>{A: [B]}\<close>, where \<open>B\<close> is no key of the index,
  \<^verbatim>\<open>build('A', index)\<close> returns exactly \<open>{A: {B}}\<close> and gives \<open>B\<close> no node of
  its own. The code calls \<^verbatim>\<open>dfs\<close> on every dependency, and \<^verbatim>\<open>dfs\<close> reads
  \<^verbatim>\<open>graph[pkg]\<close> for every name it visits, which inserts the name in the
  \<^verbatim>\<open>defaultdict\<close>: the result has the key \<open>B\<close>, with the empty set.
\<close>

theorem build_dangling_counterexample:
  "build_dependency_graph 1000 ''A'' [(''A'', [''B''])] = Inr [(''A'', {''B''}), (''B'', {})] \<and>
   build_dependency_graph 1000 ''A'' [(''A'', [''B''])] \<noteq> Inr [(''A'', {''B''})]"
  by code_simp

text \<open>
  Claim C1 as amended: for the index \<open>{a: [b]}\<close> with \<open>b\<close> no key, the builder returns
  \<open>{a: {b}, b: {}}\<close> whenever the call stack allows two nested calls; and in every
  graph the builder returns, a dependency name that is absent from the index has a node
  of its own whose dependency set is empty, so it is never expanded further.
\<close>

theorem build_dangling:
  "(a \<noteq> b \<and> 2 \<le> limit \<longrightarrow>
      build_dependency_graph limit a [(a, [b])] = Inr [(a, {b}), (b, {})]) \<and>
   (build_dependency_graph limit root packages_info = Inr graph \<and>
      map_of graph p = Some s \<and> d \<in> s \<and> \<not> dict_contains packages_info d \<longrightarrow>
      map_of graph d = Some {})"
proof
  show "a \<noteq> b \<and> 2 \<le> limit \<longrightarrow>
      build_dependency_graph limit a [(a, [b])] = Inr [(a, {b}), (b, {})]"
  proof
    assume h: "a \<noteq> b \<and> 2 \<le> limit"
    then have "2 \<le> limit" by simp
    then have "\<exists>n. limit = Suc (Suc n)" by presburger
    then obtain n where n: "limit = Suc (Suc n)" ..
    show "build_dependency_graph limit a [(a, [b])] = Inr [(a, {b}), (b, {})]"
      unfolding n using h
      by (auto simp: build_dependency_graph_def dict_contains_def dict_get_def dict_set_def
          dd_touch_def add_edge_def)
  qed
  show "build_dependency_graph limit root packages_info = Inr graph \<and>
      map_of graph p = Some s \<and> d \<in> s \<and> \<not> dict_contains packages_info d \<longrightarrow>
      map_of graph d = Some {}"
  proof
    assume h: "build_dependency_graph limit root packages_info = Inr graph \<and>
      map_of graph p = Some s \<and> d \<in> s \<and> \<not> dict_contains packages_info d"
    note f = build_graph_facts[of limit root packages_info graph]
    from h have p: "p \<in> dom (map_of graph)" by auto
    with f(3) h have "s = set (dict_get packages_info p [])"
      "set (dict_get packages_info p []) \<subseteq> dom (map_of graph)"
      by auto
    with h have "d \<in> dom (map_of graph)" by auto
    with f(3) h have "map_of graph d = Some (set (dict_get packages_info d []))" by auto
    moreover from h have "dict_get packages_info d [] = []"
      by (simp add: dict_get_def dict_contains_def)
    ultimately show "map_of graph d = Some {}" by simp
  qed
qed

theorem build_dangling_witness:
  "(''A'' \<noteq> ''B'' \<and> (2::nat) \<le> 1000) \<and>
   build_dependency_graph 1000 ''A'' [(''A'', [''B''])] = Inr [(''A'', {''B''}), (''B'', {})] \<and>
   map_of [(''A'', {''B''}), (''B'', {})] ''A'' = Some {''B''} \<and> ''B'' \<in> {''B''} \<and>
   \<not> dict_contains [(''A'', [''B''])] ''B'' \<and>
   map_of [(''A'', {''B''}), (''B'', {})] ''B'' = Some {}"
proof -
  have h1: "''A'' \<noteq> ''B'' \<and> (2::nat) \<le> 1000" by simp
  have h2: "build_dependency_graph 1000 ''A'' [(''A'', [''B''])] = Inr [(''A'', {''B''}), (''B'', {})]"
    using build_dangling[of "''A''" "''B''" 1000] h1 by blast
  have h3: "map_of [(''A'', {''B''}), (''B'', {})] ''A'' = Some {''B''}" by simp
  have h4: "\<not> dict_contains [(''A'', [''B''])] ''B''" by (simp add: dict_contains_def)
  have "map_of [(''A'', {''B''}), (''B'', {})] ''B'' = Some {}"
    using build_dangling[of _ _ 1000 "''A''" "[(''A'', [''B''])]" "[(''A'', {''B''}), (''B'', {})]"
        "''A''" "{''B''}" "''B''"] h2 h3 h4
    by blast
  with h1 h2 h3 h4 show ?thesis by simp
qed

text \<open>
  Claim C2: whenever the builder returns a graph, the root is a key of it, every key is
  reachable from the root along dependency edges of the index, and for every package
  \<open>p\<close> of the graph every dependency of \<open>p\<close> that is a key of the index is a key of
  the graph. The dependency set the graph holds for \<open>p\<close> is the set of the names the
  index lists for \<open>p\<close>.
\<close>

theorem build_closure:
  assumes "build_dependency_graph limit root packages_info = Inr graph"
  shows "dict_contains graph root \<and>
     (\<forall>p. dict_contains graph p \<longrightarrow> (root, p) \<in> (dep_edges packages_info)\<^sup>*) \<and>
     (\<forall>p d. dict_contains graph p \<longrightarrow> d \<in> set (dict_get packages_info p []) \<longrightarrow>
        dict_contains packages_info d \<longrightarrow> dict_contains graph d) \<and>
     (\<forall>p s. map_of graph p = Some s \<longrightarrow> s = set (dict_get packages_info p []))"
proof -
  note f = build_graph_facts[OF assms]
  have dc: "\<And>k. dict_contains graph k \<longleftrightarrow> k \<in> dom (map_of graph)"
    by (auto simp: dict_contains_def)
  have "\<forall>p s. map_of graph p = Some s \<longrightarrow> s = set (dict_get packages_info p [])"
    using f(3) by force
  moreover have "dict_contains graph root"
    using f(1) by (simp add: dc)
  moreover have "\<forall>p. dict_contains graph p \<longrightarrow> (root, p) \<in> (dep_edges packages_info)\<^sup>*"
    using f(2) unfolding dc by blast
  moreover have "\<forall>p d. dict_contains graph p \<longrightarrow> d \<in> set (dict_get packages_info p []) \<longrightarrow>
        dict_contains packages_info d \<longrightarrow> dict_contains graph d"
    using f(3) unfolding dc by blast
  ultimately show ?thesis by blast
qed

theorem build_closure_witness:
  "build_dependency_graph 1000 ''A'' [(''A'', [''B'', ''C'']), (''B'', [''A''])] =
     Inr [(''A'', {''B'', ''C''}), (''B'', {''A''}), (''C'', {})] \<and>
   dict_contains [(''A'', {''B'', ''C''}), (''B'', {''A''}), (''C'', {})] ''A'' \<and>
   (''A'', ''B'') \<in> (dep_edges [(''A'', [''B'', ''C'']), (''B'', [''A''])])\<^sup>* \<and>
   dict_contains [(''A'', {''B'', ''C''}), (''B'', {''A''}), (''C'', {})] ''B''"
proof -
  have h: "build_dependency_graph 1000 ''A'' [(''A'', [''B'', ''C'']), (''B'', [''A''])] =
     Inr [(''A'', {''B'', ''C''}), (''B'', {''A''}), (''C'', {})]"
    by code_simp
  have d: "dict_contains [(''A'', {''B'', ''C''}), (''B'', {''A''}), (''C'', {})] ''B''"
    by (simp add: dict_contains_def)
  from build_closure[OF h] d h show ?thesis by blast
qed

text \<open>
  Claim C3: on the cyclic index \<open>{A: [B], B: [A]}\<close> the builder returns
  \<open>{A: {B}, B: {A}}\<close>, the edge from \<open>B\<close> back into the visited \<open>A\<close> included, as soon
  as the call stack allows three nested calls. The recursion is bounded in general: a
  package is expanded only when it is not yet visited, so a call stack deeper than the
  number of names of the index is never exhausted, and the builder returns a graph for
  every root that is a key.
\<close>

theorem build_cycle:
  "(3 \<le> limit \<longrightarrow>
      build_dependency_graph limit ''A'' [(''A'', [''B'']), (''B'', [''A''])] =
        Inr [(''A'', {''B''}), (''B'', {''A''})]) \<and>
   (dict_contains packages_info root \<and> card (names packages_info) < limit \<longrightarrow>
      (\<exists>graph. build_dependency_graph limit root packages_info = Inr graph))"
proof
  show "3 \<le> limit \<longrightarrow>
      build_dependency_graph limit ''A'' [(''A'', [''B'']), (''B'', [''A''])] =
        Inr [(''A'', {''B''}), (''B'', {''A''})]"
  proof
    assume "3 \<le> limit"
    then have "\<exists>n. limit = Suc (Suc (Suc n))" by presburger
    then obtain n where n: "limit = Suc (Suc (Suc n))" ..
    show "build_dependency_graph limit ''A'' [(''A'', [''B'']), (''B'', [''A''])] =
        Inr [(''A'', {''B''}), (''B'', {''A''})]"
      unfolding n
      by (simp add: build_dependency_graph_def dict_contains_def dict_get_def dict_set_def
          dd_touch_def add_edge_def)
  qed
  show "dict_contains packages_info root \<and> card (names packages_info) < limit \<longrightarrow>
      (\<exists>graph. build_dependency_graph limit root packages_info = Inr graph)"
    using build_returns by blast
qed

theorem build_cycle_witness:
  "(3::nat) \<le> 3 \<and>
   build_dependency_graph 3 ''A'' [(''A'', [''B'']), (''B'', [''A''])] =
     Inr [(''A'', {''B''}), (''B'', {''A''})] \<and>
   dict_contains [(''A'', [''B'']), (''B'', [''A''])] ''B'' \<and>
   card (names [(''A'', [''B'']), (''B'', [''A''])]) < 3 \<and>
   (\<exists>graph. build_dependency_graph 3 ''B'' [(''A'', [''B'']), (''B'', [''A''])] = Inr graph)"
proof -
  have h1: "dict_contains [(''A'', [''B'']), (''B'', [''A''])] ''B''"
    by (simp add: dict_contains_def)
  have h2: "card (names [(''A'', [''B'']), (''B'', [''A''])]) < 3"
    by code_simp
  from build_cycle[of 3 "[(''A'', [''B'']), (''B'', [''A''])]" "''B''"] h1 h2
  show ?thesis by simp
qed

text \<open>
  Claim C4: for a root that is no key of the index the builder fails with the not-found
  error, whatever the index and the depth of the call stack. The test comes before the
  graph is created, so no graph is returned.
\<close>

theorem build_not_found:
  "\<not> dict_contains packages_info root \<Longrightarrow>
     build_dependency_graph limit root packages_info = Inl (PackageNotFound root)"
  by (simp add: build_dependency_graph_def)

theorem build_not_found_witness:
  "\<not> dict_contains [(''A'', [''B''])] ''unknown'' \<and>
   build_dependency_graph 1000 ''unknown'' [(''A'', [''B''])] = Inl (PackageNotFound ''unknown'')"
proof -
  have h: "\<not> dict_contains [(''A'', [''B''])] ''unknown''" by (simp add: dict_contains_def)
  from build_not_found[OF h] h show ?thesis by simp
qed

section \<open>Claims about the graph serializer\<close>

lemma distinct_set_single: "distinct ds \<Longrightarrow> set ds = {a} \<Longrightarrow> ds = [a]"
proof (cases ds)
  case Nil
  assume "set ds = {a}" with Nil show ?thesis by simp
next
  case (Cons x xs)
  assume d: "distinct ds" and s: "set ds = {a}"
  from s Cons have x: "x = a" by auto
  from d Cons have nx: "a \<notin> set xs" using x by simp
  have "xs = []"
  proof (cases xs)
    case Nil
    then show ?thesis .
  next
    case (Cons y ys)
    with s \<open>ds = x # xs\<close> have "y = a" by auto
    with nx Cons show ?thesis by simp
  qed
  with Cons x show ?thesis by simp
qed

lemma distinct_set_pair:
  assumes "distinct ds" and "set ds = {a, b}" and "a \<noteq> b"
  shows "ds = [a, b] \<or> ds = [b, a]"
proof (cases ds)
  case Nil
  with assms(2) show ?thesis by simp
next
  case (Cons x xs)
  from assms(1) Cons have nx: "x \<notin> set xs" and dx: "distinct xs" by simp_all
  from assms(2) Cons have ins: "insert x (set xs) = {a, b}" by simp
  then have "x = a \<or> x = b" by auto
  then show ?thesis
  proof
    assume x: "x = a"
    with ins nx assms(3) have "set xs = {b}" by auto
    with dx have "xs = [b]" by (rule distinct_set_single)
    with Cons x show ?thesis by simp
  next
    assume x: "x = b"
    with ins nx assms(3) have "set xs = {a}" by auto
    with dx have "xs = [a]" by (rule distinct_set_single)
    with Cons x show ?thesis by simp
  qed
qed

text \<open>
  Claim C7: for the graph \<open>{bash: {libc6, libtinfo6}, libc6: {libgcc1}, libtinfo6: {}}\<close>,
  in whatever order the set of \<open>bash\<close> is iterated, the output is the text that opens
  with the line \<^verbatim>\<open>digraph G {\<close>, holds the two edges of \<open>bash\<close> in one of the two
  orders and then the edge of \<open>libc6\<close>, each indented by four spaces, and closes with
  the line \<^verbatim>\<open>}\<close>; there is no other line. In general a package with no dependencies
  adds nothing to the output: the text is the same without its entry, and a graph of
  one such package gives the opening and the closing line only.
\<close>

theorem serialize_literal:
  "(iteration_of
      [(''bash'', {''libc6'', ''libtinfo6''}), (''libc6'', {''libgcc1''}), (''libtinfo6'', {})] g \<longrightarrow>
    generate_graphviz_code g =
      ''digraph G {\<newline>    \"bash\" -> \"libc6\";\<newline>    \"bash\" -> \"libtinfo6\";\<newline>    \"libc6\" -> \"libgcc1\";\<newline>}'' \<or>
    generate_graphviz_code g =
      ''digraph G {\<newline>    \"bash\" -> \"libtinfo6\";\<newline>    \"bash\" -> \"libc6\";\<newline>    \"libc6\" -> \"libgcc1\";\<newline>}'') \<and>
   generate_graphviz_code (g1 @ (p, []) # g2) = generate_graphviz_code (g1 @ g2) \<and>
   generate_graphviz_code [(p, [])] = ''digraph G {\<newline>}''"
proof (intro conjI impI)
  assume "iteration_of
      [(''bash'', {''libc6'', ''libtinfo6''}), (''libc6'', {''libgcc1''}), (''libtinfo6'', {})] g"
  then obtain ds1 ds2 where
    g: "g = [(''bash'', ds1), (''libc6'', ds2), (''libtinfo6'', [])]" and
    d1: "distinct ds1" "set ds1 = {''libc6'', ''libtinfo6''}" and
    d2: "distinct ds2" "set ds2 = {''libgcc1''}"
    by (auto simp: iteration_of_def list_all2_Cons1)
  from d2 have ds2: "ds2 = [''libgcc1'']" by (rule distinct_set_single)
  from d1 have "ds1 = [''libc6'', ''libtinfo6''] \<or> ds1 = [''libtinfo6'', ''libc6'']"
    by (rule distinct_set_pair) simp
  then show "generate_graphviz_code g =
      ''digraph G {\<newline>    \"bash\" -> \"libc6\";\<newline>    \"bash\" -> \"libtinfo6\";\<newline>    \"libc6\" -> \"libgcc1\";\<newline>}'' \<or>
    generate_graphviz_code g =
      ''digraph G {\<newline>    \"bash\" -> \"libtinfo6\";\<newline>    \"bash\" -> \"libc6\";\<newline>    \"libc6\" -> \"libgcc1\";\<newline>}''"
    unfolding g ds2 by (auto simp: generate_graphviz_code_def edge_line_def)
next
  show "generate_graphviz_code (g1 @ (p, []) # g2) = generate_graphviz_code (g1 @ g2)"
    by (simp add: generate_graphviz_code_def)
next
  show "generate_graphviz_code [(p, [])] = ''digraph G {\<newline>}''"
    by (simp add: generate_graphviz_code_def)
qed

theorem serialize_literal_witness:
  "iteration_of
      [(''bash'', {''libc6'', ''libtinfo6''}), (''libc6'', {''libgcc1''}), (''libtinfo6'', {})]
      [(''bash'', [''libtinfo6'', ''libc6'']), (''libc6'', [''libgcc1'']), (''libtinfo6'', [])] \<and>
   generate_graphviz_code
      [(''bash'', [''libtinfo6'', ''libc6'']), (''libc6'', [''libgcc1'']), (''libtinfo6'', [])] =
      ''digraph G {\<newline>    \"bash\" -> \"libtinfo6\";\<newline>    \"bash\" -> \"libc6\";\<newline>    \"libc6\" -> \"libgcc1\";\<newline>}''"
proof -
  have h: "iteration_of
      [(''bash'', {''libc6'', ''libtinfo6''}), (''libc6'', {''libgcc1''}), (''libtinfo6'', {})]
      [(''bash'', [''libtinfo6'', ''libc6'']), (''libc6'', [''libgcc1'']), (''libtinfo6'', [])]"
    by (auto simp: iteration_of_def)
  have n: "generate_graphviz_code
      [(''bash'', [''libtinfo6'', ''libc6'']), (''libc6'', [''libgcc1'']), (''libtinfo6'', [])] \<noteq>
      ''digraph G {\<newline>    \"bash\" -> \"libc6\";\<newline>    \"bash\" -> \"libtinfo6\";\<newline>    \"libc6\" -> \"libgcc1\";\<newline>}''"
    by code_simp
  from serialize_literal[of "[(''bash'', [''libtinfo6'', ''libc6'']), (''libc6'', [''libgcc1'']), (''libtinfo6'', [])]"] h n
  show ?thesis by blast
qed

section \<open>Properties of the metadata parser\<close>

subsection \<open>split and join\<close>

lemma split_on_Nil: "dropWhile (\<lambda>c. c \<noteq> sep) s = [] \<Longrightarrow> split_on sep s = [s]"
  by (subst split_on.simps) (simp only: list.case)

lemma split_on_Cons:
  "dropWhile (\<lambda>c. c \<noteq> sep) s = c # rest \<Longrightarrow>
     split_on sep s = takeWhile (\<lambda>c. c \<noteq> sep) s # split_on sep rest"
  by (subst split_on.simps) (simp only: list.case)

lemma split_on_no_sep: "sep \<notin> set s \<Longrightarrow> split_on sep s = [s]"
  by (rule split_on_Nil) auto

lemma split_on_first: "sep \<notin> set a \<Longrightarrow> split_on sep (a @ sep # b) = a # split_on sep b"
proof -
  assume a: "sep \<notin> set a"
  then have "\<forall>x\<in>set a. x \<noteq> sep" by auto
  then have "dropWhile (\<lambda>c. c \<noteq> sep) (a @ sep # b) = sep # b"
    and "takeWhile (\<lambda>c. c \<noteq> sep) (a @ sep # b) = a"
    by simp_all
  then show ?thesis using split_on_Cons[of sep "a @ sep # b" sep b] by simp
qed

lemma split_on_hd: "\<exists>ps. split_on sep s = takeWhile (\<lambda>c. c \<noteq> sep) s # ps"
proof (cases "dropWhile (\<lambda>c. c \<noteq> sep) s")
  case Nil
  then have "takeWhile (\<lambda>c. c \<noteq> sep) s = s"
    by (metis append_Nil2 takeWhile_dropWhile_id)
  with split_on_Nil[OF Nil] have "split_on sep s = takeWhile (\<lambda>c. c \<noteq> sep) s # []"
    by (simp only:)
  then show ?thesis ..
next
  case (Cons c cs)
  from split_on_Cons[OF this] show ?thesis by simp
qed

lemma split_on_append: "split_on sep (a @ sep # b) = split_on sep a @ split_on sep b"
proof (induction a rule: length_induct)
  case (1 a)
  show ?case
  proof (cases "sep \<in> set a")
    case False
    then show ?thesis by (simp add: split_on_no_sep split_on_first)
  next
    case True
    then obtain a1 a2 where a: "a = a1 @ sep # a2" "sep \<notin> set a1"
      by (auto dest: split_list_first)
    then have "length a2 < length a" by simp
    with 1 have ih: "split_on sep (a2 @ sep # b) = split_on sep a2 @ split_on sep b" by blast
    have "split_on sep (a @ sep # b) = a1 # split_on sep (a2 @ sep # b)"
      using a split_on_first[of sep a1 "a2 @ sep # b"] by simp
    also have "\<dots> = (a1 # split_on sep a2) @ split_on sep b" using ih by simp
    also have "a1 # split_on sep a2 = split_on sep a" using a split_on_first[of sep a1 a2] by simp
    finally show ?thesis .
  qed
qed

lemma split_on_join:
  "ls \<noteq> [] \<Longrightarrow> \<forall>l\<in>set ls. sep \<notin> set l \<Longrightarrow> split_on sep (join [sep] ls) = ls"
proof (induction "[sep]" ls rule: join.induct)
  case 1
  then show ?case by simp
next
  case (2 x)
  then show ?case by (simp add: split_on_no_sep)
next
  case (3 x y ys)
  then show ?case by (simp add: split_on_first)
qed

subsection \<open>strip\<close>

lemma strip_Nil: "strip [] = []"
  by (simp add: strip_def)

lemma strip_space_Cons: "isspace c \<Longrightarrow> strip (c # s) = strip s"
  by (simp add: strip_def)

lemma strip_id: "s \<noteq> [] \<Longrightarrow> \<not> isspace (hd s) \<Longrightarrow> \<not> isspace (last s) \<Longrightarrow> strip s = s"
proof -
  assume s: "s \<noteq> []" and h: "\<not> isspace (hd s)" and l: "\<not> isspace (last s)"
  from s h have "dropWhile isspace s = s" by (cases s) simp_all
  moreover from s l have "dropWhile isspace (rev s) = rev s"
    by (cases "rev s") (simp_all add: last_rev[symmetric] hd_rev)
  ultimately show ?thesis by (simp add: strip_def)
qed

lemma strip_no_space: "\<forall>c\<in>set s. \<not> isspace c \<Longrightarrow> strip s = s"
  by (cases "s = []") (simp_all add: strip_Nil strip_id)


subsection \<open>The steps of the parser never raise\<close>

lemma index0_split_on: "index0 (split_on sep s) = Inr (takeWhile (\<lambda>c. c \<noteq> sep) s)"
  using split_on_hd[of sep s] by (auto simp: index0_def)

lemma dep_name_eq: "dep_name dep = Inr (entry_name dep)"
  by (simp add: dep_name_def entry_name_def index0_split_on)

lemma comprehension_Inr: "\<forall>x\<in>set xs. f x = Inr (g x) \<Longrightarrow> comprehension f xs = Inr (map g xs)"
  by (induction xs) simp_all

lemma parse_depends_eq: "parse_depends depends = Inr (dep_names depends)"
  by (simp add: parse_depends_def dep_names_def comprehension_Inr dep_name_eq)

lemma split_once_sep:
  assumes "sep \<in> set s"
  shows "split_once sep s = [takeWhile (\<lambda>c. c \<noteq> sep) s, tl (dropWhile (\<lambda>c. c \<noteq> sep) s)]"
proof -
  from assms have "dropWhile (\<lambda>c. c \<noteq> sep) s \<noteq> []"
    by (auto simp: dropWhile_eq_Nil_conv)
  then obtain c rest where "dropWhile (\<lambda>c. c \<noteq> sep) s = c # rest"
    by (cases "dropWhile (\<lambda>c. c \<noteq> sep) s") auto
  then show ?thesis by (simp only: split_once_def list.case list.sel)
qed

lemma add_line_eq:
  "add_line cur line =
     Inr (if CHR '':'' \<in> set line then dict_set cur (field_key line) (field_value line) else cur)"
proof (cases "CHR '':'' \<in> set line")
  case True
  from split_once_sep[OF True] True show ?thesis
    by (simp add: add_line_def field_key_def field_value_def)
next
  case False
  then show ?thesis by (simp add: add_line_def)
qed

lemma commit_record_eq:
  "commit_record info cur =
     Inr (case map_of cur ''Package'' of
            None \<Rightarrow> info
          | Some p \<Rightarrow> dict_set info p (dep_names (dict_get cur ''Depends'' [])))"
  by (simp add: commit_record_def dict_contains_def dict_index_def parse_depends_eq
      split: option.splits)

lemma process_line_blank:
  "strip line = [] \<Longrightarrow>
     process_line (info, cur) line =
       Inr (case map_of cur ''Package'' of
              None \<Rightarrow> info
            | Some p \<Rightarrow> dict_set info p (dep_names (dict_get cur ''Depends'' [])), [])"
  by (simp add: process_line_def commit_record_eq)

lemma process_line_field:
  "strip line \<noteq> [] \<Longrightarrow>
     process_line (info, cur) line =
       Inr (info, if CHR '':'' \<in> set line
                  then dict_set cur (field_key line) (field_value line) else cur)"
  by (simp add: process_line_def add_line_eq)

lemma process_line_total: "\<exists>i c. process_line st line = Inr (i, c)"
proof (cases st)
  case (Pair info cur)
  show ?thesis
  proof (cases "strip line = []")
    case True
    from process_line_blank[OF this] Pair show ?thesis by simp
  next
    case False
    from process_line_field[OF this] Pair show ?thesis by simp
  qed
qed

lemma parse_loop_total: "\<exists>i c. parse_loop st ls = Inr (i, c)"
proof (induction ls arbitrary: st)
  case Nil
  then show ?case by (cases st) simp
next
  case (Cons l ls)
  from process_line_total obtain i c where "process_line st l = Inr (i, c)" by blast
  with Cons[of "(i, c)"] show ?case by simp
qed

lemma parse_loop_append:
  "parse_loop st (xs @ ys) =
     (case parse_loop st xs of Inl e \<Rightarrow> Inl e | Inr st' \<Rightarrow> parse_loop st' ys)"
  by (induction xs arbitrary: st) (simp_all split: sum.splits)

lemma parse_loop_append_Inr:
  "parse_loop st xs = Inr st' \<Longrightarrow> parse_loop st (xs @ ys) = parse_loop st' ys"
  by (simp add: parse_loop_append)

lemma parse_loop_blank:
  "\<forall>l\<in>set bs. strip l = [] \<Longrightarrow> parse_loop (info, []) bs = Inr (info, [])"
  by (induction bs) (simp_all add: process_line_blank)

lemma parse_loop_ends_blank:
  assumes "ls \<noteq> []" and "strip (last ls) = []"
  shows "\<exists>i. parse_loop st ls = Inr (i, [])"
proof -
  from assms(1) obtain xs l where ls: "ls = xs @ [l]" by (metis rev_exhaust)
  with assms(2) have b: "strip l = []" by simp
  from parse_loop_total obtain i c where xs: "parse_loop st xs = Inr (i, c)" by blast
  from parse_loop_append_Inr[OF xs, of "[l]"] process_line_blank[OF b, of i c] ls
  show ?thesis by simp
qed

lemma parse_loop_record:
  "\<forall>l\<in>set rs. strip l \<noteq> [] \<Longrightarrow>
     \<exists>cur'. parse_loop (info, cur) rs = Inr (info, cur') \<and>
       (\<forall>k. map_of cur' k =
          (case filter (\<lambda>l. is_field l k) rs of
             [] \<Rightarrow> map_of cur k
           | l # ls \<Rightarrow> Some (field_value (last (l # ls)))))"
proof (induction rs arbitrary: cur)
  case Nil
  then show ?case by simp
next
  case (Cons r rs)
  let ?cur1 = "if CHR '':'' \<in> set r then dict_set cur (field_key r) (field_value r) else cur"
  from Cons.prems have r: "strip r \<noteq> []" and rs: "\<forall>l\<in>set rs. strip l \<noteq> []" by simp_all
  from Cons.IH[OF rs, of ?cur1] obtain cur' where
    run: "parse_loop (info, ?cur1) rs = Inr (info, cur')" and
    val: "\<forall>k. map_of cur' k =
          (case filter (\<lambda>l. is_field l k) rs of
             [] \<Rightarrow> map_of ?cur1 k
           | l # ls \<Rightarrow> Some (field_value (last (l # ls))))"
    by blast
  have "parse_loop (info, cur) (r # rs) = Inr (info, cur')"
    using run process_line_field[OF r, of info cur] by simp
  moreover have "\<forall>k. map_of cur' k =
          (case filter (\<lambda>l. is_field l k) (r # rs) of
             [] \<Rightarrow> map_of cur k
           | l # ls \<Rightarrow> Some (field_value (last (l # ls))))"
  proof
    fix k
    show "map_of cur' k =
          (case filter (\<lambda>l. is_field l k) (r # rs) of
             [] \<Rightarrow> map_of cur k
           | l # ls \<Rightarrow> Some (field_value (last (l # ls))))"
      using val[rule_format, of k]
      by (cases "filter (\<lambda>l. is_field l k) rs")
         (auto simp: is_field_def dict_set_def update_conv')
  qed
  ultimately show ?case by blast
qed

lemma parse_loop_merge:
  "parse_loop (i1, c) ls = Inr (i1', c') \<Longrightarrow> map_of i2 = m ++ map_of i1 \<Longrightarrow>
     \<exists>i2'. parse_loop (i2, c) ls = Inr (i2', c') \<and> map_of i2' = m ++ map_of i1'"
proof (induction ls arbitrary: i1 i2 c)
  case Nil
  then show ?case by simp
next
  case (Cons l ls)
  show ?case
  proof (cases "strip l = []")
    case True
    let ?f = "\<lambda>i. case map_of c ''Package'' of
              None \<Rightarrow> i
            | Some p \<Rightarrow> dict_set i p (dep_names (dict_get c ''Depends'' []))"
    from Cons.prems(1) process_line_blank[OF True, of i1 c]
    have run: "parse_loop (?f i1, []) ls = Inr (i1', c')" by simp
    have "map_of (?f i2) = m ++ map_of (?f i1)"
      using Cons.prems(2) by (simp add: dict_set_def update_conv' split: option.splits)
    from Cons.IH[OF run this] process_line_blank[OF True, of i2 c] show ?thesis by simp
  next
    case False
    from Cons.prems(1) process_line_field[OF False, of i1 c] process_line_field[OF False, of i2 c]
      Cons.IH[OF _ Cons.prems(2)]
    show ?thesis by simp
  qed
qed

subsection \<open>Texts as lists of lines\<close>

lemma parse_join:
  assumes "ls \<noteq> []" and "text_lines ls" and "parse_loop ([], []) ls = Inr (i, c)"
  shows "parse_packages_data (join ''\<newline>'' ls) = Inr i"
proof -
  from assms(1,2) have "split_on (CHR ''\<newline>'') (join ''\<newline>'' ls) = ls"
    by (intro split_on_join) (simp_all add: text_lines_def)
  with assms(3) show ?thesis by (simp add: parse_packages_data_def)
qed

lemma has_field_value:
  assumes "has_field rs k v"
  shows "(case filter (\<lambda>l. is_field l k) rs of
             [] \<Rightarrow> x
           | l # ls \<Rightarrow> Some (field_value (last (l # ls)))) = Some v"
proof (cases "filter (\<lambda>l. is_field l k) rs")
  case Nil
  with assms show ?thesis by (auto simp: has_field_def filter_empty_conv)
next
  case (Cons l ls)
  then have "last (l # ls) \<in> set (filter (\<lambda>l. is_field l k) rs)"
    by (metis last_in_set list.distinct(1))
  then have "last (l # ls) \<in> set rs" "is_field (last (l # ls)) k" by simp_all
  with assms have "field_value (last (l # ls)) = v" by (simp add: has_field_def)
  with Cons show ?thesis by simp
qed

lemma lacks_field_value:
  assumes "lacks_field rs k"
  shows "(case filter (\<lambda>l. is_field l k) rs of
             [] \<Rightarrow> x
           | l # ls \<Rightarrow> Some (field_value (last (l # ls)))) = x"
proof -
  from assms have "filter (\<lambda>l. is_field l k) rs = []"
    by (simp add: lacks_field_def filter_empty_conv)
  then show ?thesis by simp
qed

lemma parse_single_record:
  assumes pre: "blank_lines pre" and rs: "record_lines rs" and post: "blank_lines (b # post)"
    and pkg: "has_field rs ''Package'' P"
    and dep: "has_field rs ''Depends'' v \<or> lacks_field rs ''Depends'' \<and> v = []"
  shows "parse_packages_data (join ''\<newline>'' (pre @ rs @ b # post)) = Inr [(P, dep_names v)]"
proof -
  from rs have nb: "\<forall>l\<in>set rs. strip l \<noteq> []" by (simp add: record_lines_def)
  from parse_loop_record[OF nb, of "[]" "[]"] obtain cur where
    run: "parse_loop ([], []) rs = Inr ([], cur)" and
    val: "\<And>k. map_of cur k =
          (case filter (\<lambda>l. is_field l k) rs of
             [] \<Rightarrow> map_of ([] :: package_record) k
           | l # ls \<Rightarrow> Some (field_value (last (l # ls))))"
    by blast
  have p: "map_of cur ''Package'' = Some P"
    using val[of "''Package''"] has_field_value[OF pkg] by simp
  have d: "dict_get cur ''Depends'' [] = v"
  proof (cases "has_field rs ''Depends'' v")
    case True
    from val[of "''Depends''"] has_field_value[OF True] show ?thesis by (simp add: dict_get_def)
  next
    case False
    with dep have l: "lacks_field rs ''Depends''" and v: "v = []" by simp_all
    from val[of "''Depends''"] lacks_field_value[OF l] v show ?thesis by (simp add: dict_get_def)
  qed
  from pre have 1: "parse_loop ([], []) pre = Inr ([], [])"
    by (intro parse_loop_blank) (simp add: blank_lines_def)
  from post have b: "strip b = []" and bs: "\<forall>l\<in>set post. strip l = []"
    by (simp_all add: blank_lines_def)
  have 2: "parse_loop ([], cur) (b # post) = Inr ([(P, dep_names v)], [])"
    using process_line_blank[OF b, of "[]" cur] p d parse_loop_blank[OF bs]
    by (simp add: dict_set_def)
  have "parse_loop ([], []) (pre @ rs @ b # post) = Inr ([(P, dep_names v)], [])"
    using 1 run 2 by (simp add: parse_loop_append)
  moreover have "text_lines (pre @ rs @ b # post)"
    using pre rs post by (auto simp: text_lines_def blank_lines_def record_lines_def)
  ultimately show ?thesis by (intro parse_join) simp_all
qed

lemma isspace_space: "isspace (CHR '' '')"
  by (simp add: isspace_def)

lemma dep_names_two:
  assumes "plain_name d1" and "plain_name d2"
  shows "dep_names (d1 @ '' (>=1), '' @ d2) = [d1, d2]"
proof -
  from assms have n1: "d1 \<noteq> []" "\<forall>c\<in>set d1. \<not> isspace c" "CHR '','' \<notin> set d1"
    and n2: "\<forall>c\<in>set d2. \<not> isspace c" "CHR '','' \<notin> set d2"
    by (auto simp: plain_name_def)
  from n1(2) n2(1) isspace_space have sp: "CHR '' '' \<notin> set d1" "CHR '' '' \<notin> set d2" by auto
  have "CHR '','' \<notin> set (d1 @ '' (>=1)'')" using n1(3) by simp
  from split_on_first[OF this, of "'' '' @ d2"]
  have "split_on (CHR '','') (d1 @ '' (>=1), '' @ d2) = [d1 @ '' (>=1)'', '' '' @ d2]"
    using n2(2) by (simp add: split_on_no_sep)
  moreover have "entry_name (d1 @ '' (>=1)'') = d1"
  proof -
    have "strip (d1 @ '' (>=1)'') = d1 @ '' (>=1)''"
      using n1(1,2) by (intro strip_id) (simp_all add: isspace_def)
    then show ?thesis using sp(1) by (auto simp: entry_name_def takeWhile_tail)
  qed
  moreover have "entry_name ('' '' @ d2) = d2"
  proof -
    have "strip ('' '' @ d2) = d2"
      using strip_space_Cons[OF isspace_space, of d2] strip_no_space[OF n2(1)] by simp
    then show ?thesis using sp(2) by (auto simp: entry_name_def)
  qed
  ultimately show ?thesis by (simp add: dep_names_def)
qed

lemma parse_loop_start:
  assumes "pre = [] \<or> strip (last pre) = []"
  shows "\<exists>i. parse_loop ([], []) pre = Inr (i, [])"
proof (cases "pre = []")
  case True
  then show ?thesis by simp
next
  case False
  with assms have "strip (last pre) = []" by simp
  from parse_loop_ends_blank[OF False this] show ?thesis .
qed

lemma parse_total: "\<exists>idx. parse_packages_data packages_data = Inr idx"
proof -
  from parse_loop_total obtain i c where
    "parse_loop ([], []) (split_on (CHR ''\<newline>'') packages_data) = Inr (i, c)" by blast
  then show ?thesis by (simp add: parse_packages_data_def)
qed

lemma parse_join_eq:
  assumes "ls \<noteq> []" and "text_lines ls" and "ls' \<noteq> []" and "text_lines ls'"
    and "parse_loop ([], []) ls = parse_loop ([], []) ls'"
  shows "parse_packages_data (join ''\<newline>'' ls) = parse_packages_data (join ''\<newline>'' ls')"
proof -
  from parse_loop_total obtain i c where r: "parse_loop ([], []) ls = Inr (i, c)" by blast
  with assms(5) have r': "parse_loop ([], []) ls' = Inr (i, c)" by simp
  from parse_join[OF assms(1,2) r] parse_join[OF assms(3,4) r'] show ?thesis by simp
qed

lemma parse_skip_line:
  assumes "text_lines (pre @ l # post)" and "pre @ post \<noteq> []"
    and "strip l \<noteq> []" and "CHR '':'' \<notin> set l"
  shows "parse_packages_data (join ''\<newline>'' (pre @ l # post)) =
    parse_packages_data (join ''\<newline>'' (pre @ post))"
proof (rule parse_join_eq)
  show "pre @ l # post \<noteq> []" by simp
  show "text_lines (pre @ l # post)" by fact
  show "pre @ post \<noteq> []" by fact
  show "text_lines (pre @ post)" using assms(1) by (simp add: text_lines_def)
  from parse_loop_total obtain i c where r: "parse_loop ([], []) pre = Inr (i, c)" by blast
  from process_line_field[OF assms(3), of i c] assms(4)
  have "parse_loop (i, c) (l # post) = parse_loop (i, c) post" by simp
  with r show "parse_loop ([], []) (pre @ l # post) = parse_loop ([], []) (pre @ post)"
    by (simp add: parse_loop_append)
qed

lemma parse_skip_record:
  assumes "text_lines (pre @ b # post)" and "pre = [] \<or> strip (last pre) = []"
    and "record_lines rs" and "lacks_field rs ''Package''" and "strip b = []"
  shows "parse_packages_data (join ''\<newline>'' (pre @ rs @ b # post)) =
    parse_packages_data (join ''\<newline>'' (pre @ b # post))"
proof (rule parse_join_eq)
  show "pre @ rs @ b # post \<noteq> []" by simp
  show "text_lines (pre @ rs @ b # post)"
    using assms(1,3) by (auto simp: text_lines_def record_lines_def)
  show "pre @ b # post \<noteq> []" by simp
  show "text_lines (pre @ b # post)" by fact
  from parse_loop_start[OF assms(2)] obtain i where r: "parse_loop ([], []) pre = Inr (i, [])"
    by blast
  from assms(3) have nb: "\<forall>l\<in>set rs. strip l \<noteq> []" by (simp add: record_lines_def)
  from parse_loop_record[OF nb, of i "[]"] obtain cur where
    run: "parse_loop (i, []) rs = Inr (i, cur)" and
    val: "\<And>k. map_of cur k =
          (case filter (\<lambda>l. is_field l k) rs of
             [] \<Rightarrow> map_of ([] :: package_record) k
           | l # ls \<Rightarrow> Some (field_value (last (l # ls))))"
    by blast
  have "map_of cur ''Package'' = None"
    using val[of "''Package''"] lacks_field_value[OF assms(4)] by simp
  then have "process_line (i, cur) b = process_line (i, []) b"
    using process_line_blank[OF assms(5)] by simp
  then have "parse_loop (i, cur) (b # post) = parse_loop (i, []) (b # post)" by simp
  with r run show "parse_loop ([], []) (pre @ rs @ b # post) = parse_loop ([], []) (pre @ b # post)"
    by (simp add: parse_loop_append)
qed

section \<open>Claims about the metadata parser\<close>

text \<open>
  In the claims below a text is given by its lines, joined by newlines. A record text
  is the lines of one record, followed by a blank line, with nothing but blank lines
  before and after.
\<close>

text \<open>
  Claim C5: a record text whose record has the fields \<^verbatim>\<open>Package: P\<close> and
  \<^verbatim>\<open>Depends: d1 (>=1), d2\<close>, for well-formed names \<open>d1\<close> and \<open>d2\<close>, parses to the
  index \<open>{P: [d1, d2]}\<close>. For every value of the field the parser returns the names of
  its comma-separated entries, each cut at its first space, in the order of the value.
\<close>

theorem parse_depends_record:
  "(plain_name d1 \<and> plain_name d2 \<and> blank_lines pre \<and> record_lines rs \<and> blank_lines (b # post) \<and>
    has_field rs ''Package'' P \<and> has_field rs ''Depends'' (d1 @ '' (>=1), '' @ d2) \<longrightarrow>
      parse_packages_data (join ''\<newline>'' (pre @ rs @ b # post)) = Inr [(P, [d1, d2])]) \<and>
   parse_depends depends = Inr (dep_names depends)"
  using parse_single_record[of pre rs b post P "d1 @ '' (>=1), '' @ d2"] dep_names_two[of d1 d2]
    parse_depends_eq[of depends]
  by auto

theorem parse_depends_record_witness:
  "plain_name ''libc6'' \<and> plain_name ''libtinfo6'' \<and> blank_lines [] \<and>
   record_lines [''Package: bash'', ''Depends: libc6 (>=1), libtinfo6''] \<and>
   blank_lines [''''] \<and>
   has_field [''Package: bash'', ''Depends: libc6 (>=1), libtinfo6''] ''Package'' ''bash'' \<and>
   has_field [''Package: bash'', ''Depends: libc6 (>=1), libtinfo6''] ''Depends''
     ''libc6 (>=1), libtinfo6'' \<and>
   parse_packages_data (join ''\<newline>'' [''Package: bash'', ''Depends: libc6 (>=1), libtinfo6'', '''']) =
     Inr [(''bash'', [''libc6'', ''libtinfo6''])]"
proof -
  have h1: "plain_name ''libc6''" "plain_name ''libtinfo6''" by code_simp+
  have h2: "blank_lines []" "blank_lines ['''']" by code_simp+
  have h3: "record_lines [''Package: bash'', ''Depends: libc6 (>=1), libtinfo6'']" by code_simp
  have h4: "has_field [''Package: bash'', ''Depends: libc6 (>=1), libtinfo6''] ''Package'' ''bash''"
    by code_simp
  have h5: "has_field [''Package: bash'', ''Depends: libc6 (>=1), libtinfo6''] ''Depends''
     (''libc6'' @ '' (>=1), '' @ ''libtinfo6'')"
    by code_simp
  from parse_depends_record[of "''libc6''" "''libtinfo6''" "[]"
      "[''Package: bash'', ''Depends: libc6 (>=1), libtinfo6'']" "''''" "[]" "''bash''"]
    h1 h2 h3 h4 h5
  show ?thesis by simp
qed

text \<open>
  Claim C6: a record text whose record has the field \<^verbatim>\<open>Package: X\<close> and either no
  \<^verbatim>\<open>Depends\<close> field or one with an empty value parses to the index \<open>{X: []}\<close>.
\<close>

theorem parse_empty_depends:
  "blank_lines pre \<and> record_lines rs \<and> blank_lines (b # post) \<and> has_field rs ''Package'' X \<and>
   (lacks_field rs ''Depends'' \<or> has_field rs ''Depends'' []) \<longrightarrow>
     parse_packages_data (join ''\<newline>'' (pre @ rs @ b # post)) = Inr [(X, [])]"
  using parse_single_record[of pre rs b post X "[]"]
  by (auto simp: dep_names_def)

theorem parse_empty_depends_witness:
  "record_lines [''Package: libtinfo6'', ''Depends:''] \<and>
   has_field [''Package: libtinfo6'', ''Depends:''] ''Package'' ''libtinfo6'' \<and>
   has_field [''Package: libtinfo6'', ''Depends:''] ''Depends'' [] \<and>
   parse_packages_data (join ''\<newline>'' [''Package: libtinfo6'', ''Depends:'', '''']) =
     Inr [(''libtinfo6'', [])] \<and>
   record_lines [''Package: libgcc1''] \<and>
   has_field [''Package: libgcc1''] ''Package'' ''libgcc1'' \<and>
   lacks_field [''Package: libgcc1''] ''Depends'' \<and>
   parse_packages_data (join ''\<newline>'' [''Package: libgcc1'', '''']) = Inr [(''libgcc1'', [])]"
proof -
  have b: "blank_lines []" "blank_lines ['''']" by code_simp+
  have h1: "record_lines [''Package: libtinfo6'', ''Depends:'']" by code_simp
  have h2: "has_field [''Package: libtinfo6'', ''Depends:''] ''Package'' ''libtinfo6''" by code_simp
  have h3: "has_field [''Package: libtinfo6'', ''Depends:''] ''Depends'' []" by code_simp
  have k1: "record_lines [''Package: libgcc1'']" by code_simp
  have k2: "has_field [''Package: libgcc1''] ''Package'' ''libgcc1''" by code_simp
  have k3: "lacks_field [''Package: libgcc1''] ''Depends''" by code_simp
  from parse_empty_depends[of "[]" "[''Package: libtinfo6'', ''Depends:'']" "''''" "[]" "''libtinfo6''"]
    b h1 h2 h3
  have 1: "parse_packages_data (join ''\<newline>'' [''Package: libtinfo6'', ''Depends:'', '''']) =
     Inr [(''libtinfo6'', [])]" by simp
  from parse_empty_depends[of "[]" "[''Package: libgcc1'']" "''''" "[]" "''libgcc1''"] b k1 k2 k3
  have 2: "parse_packages_data (join ''\<newline>'' [''Package: libgcc1'', '''']) = Inr [(''libgcc1'', [])]"
    by simp
  from h1 h2 h3 k1 k2 k3 1 2 show ?thesis by simp
qed

text \<open>
  Claim C8: the parser returns an index for every input and raises nothing. A line of
  a record that holds no colon is ignored: the text parses as it does without the
  line. A record without a \<^verbatim>\<open>Package\<close> field, starting at the beginning of the text
  or after a blank line, adds nothing: the text parses as it does without the lines of
  the record. Blank lines hold no colon either; they are the separators of records and
  are the subject of claim C9.
\<close>

theorem parse_total_lenient:
  "(\<exists>idx. parse_packages_data packages_data = Inr idx) \<and>
   (text_lines (pre @ l # post) \<and> pre @ post \<noteq> [] \<and> strip l \<noteq> [] \<and> CHR '':'' \<notin> set l \<longrightarrow>
      parse_packages_data (join ''\<newline>'' (pre @ l # post)) =
        parse_packages_data (join ''\<newline>'' (pre @ post))) \<and>
   (text_lines (pre' @ b # post') \<and> (pre' = [] \<or> strip (last pre') = []) \<and>
    record_lines rs \<and> lacks_field rs ''Package'' \<and> strip b = [] \<longrightarrow>
      parse_packages_data (join ''\<newline>'' (pre' @ rs @ b # post')) =
        parse_packages_data (join ''\<newline>'' (pre' @ b # post')))"
  using parse_total[of packages_data] parse_skip_line[of pre l post] parse_skip_record[of pre' b post' rs]
  by blast

theorem parse_total_lenient_witness:
  "(\<exists>idx. parse_packages_data ''no colon here'' = Inr idx) \<and>
   text_lines [''Package: a'', ''no colon here'', ''''] \<and> strip ''no colon here'' \<noteq> [] \<and>
   CHR '':'' \<notin> set ''no colon here'' \<and>
   parse_packages_data (join ''\<newline>'' [''Package: a'', ''no colon here'', '''']) =
     parse_packages_data (join ''\<newline>'' [''Package: a'', '''']) \<and>
   text_lines ['''', ''Package: a'', ''''] \<and> record_lines [''Depends: x''] \<and>
   lacks_field [''Depends: x''] ''Package'' \<and>
   parse_packages_data (join ''\<newline>'' [''Depends: x'', '''', ''Package: a'', '''']) =
     parse_packages_data (join ''\<newline>'' ['''', ''Package: a'', ''''])"
proof -
  have h1: "text_lines [''Package: a'', ''no colon here'', '''']" by code_simp
  have h2: "strip ''no colon here'' \<noteq> []" by code_simp
  have h3: "CHR '':'' \<notin> set ''no colon here''" by simp
  have k1: "text_lines ['''', ''Package: a'', '''']" by code_simp
  have k2: "record_lines [''Depends: x'']" by code_simp
  have k3: "lacks_field [''Depends: x''] ''Package''" by code_simp
  have k4: "strip '''' = []" by code_simp
  from parse_total_lenient[of "''no colon here''" "[''Package: a'']" "''no colon here''" "['''']"
      "[]" "''''" "[''Package: a'', '''']" "[''Depends: x'']"]
    h1 h2 h3 k1 k2 k3 k4
  show ?thesis by simp
qed

text \<open>
  Claim C9: when every line of the last part \<open>r\<close> of a text is not blank, so that
  neither a blank line nor a final newline follows the last record, the lines of \<open>r\<close>
  store nothing in the index: alone they parse to the empty index, and after a text
  \<open>t\<close> and a newline the index is that of \<open>t\<close>, whether \<open>r\<close> has a \<^verbatim>\<open>Package\<close>
  field or not.
\<close>

theorem parse_unterminated_record:
  assumes "\<forall>l\<in>set (split_on (CHR ''\<newline>'') r). strip l \<noteq> []"
  shows "parse_packages_data r = Inr [] \<and>
    parse_packages_data (t @ ''\<newline>'' @ r) = parse_packages_data t"
proof
  from parse_loop_record[OF assms, of "[]" "[]"]
  show "parse_packages_data r = Inr []" by (auto simp: parse_packages_data_def)
  from parse_loop_total obtain i c where
    t: "parse_loop ([], []) (split_on (CHR ''\<newline>'') t) = Inr (i, c)" by blast
  from parse_loop_record[OF assms, of i c] obtain c' where
    r: "parse_loop (i, c) (split_on (CHR ''\<newline>'') r) = Inr (i, c')" by blast
  have "split_on (CHR ''\<newline>'') (t @ ''\<newline>'' @ r) =
      split_on (CHR ''\<newline>'') t @ split_on (CHR ''\<newline>'') r"
    using split_on_append[of "CHR ''\<newline>''" t r] by simp
  with t r show "parse_packages_data (t @ ''\<newline>'' @ r) = parse_packages_data t"
    by (simp add: parse_packages_data_def parse_loop_append)
qed

theorem parse_unterminated_record_witness:
  "split_on (CHR ''\<newline>'') ''Package: bash\<newline>Depends: libc6'' =
     [''Package: bash'', ''Depends: libc6''] \<and>
   strip ''Package: bash'' \<noteq> [] \<and> strip ''Depends: libc6'' \<noteq> [] \<and>
   parse_packages_data ''Package: bash\<newline>Depends: libc6'' = Inr [] \<and>
   parse_packages_data (''Package: libc6\<newline>'' @ ''\<newline>'' @ ''Package: bash\<newline>Depends: libc6'') =
     parse_packages_data ''Package: libc6\<newline>''"
proof -
  have s: "split_on (CHR ''\<newline>'') ''Package: bash\<newline>Depends: libc6'' =
     [''Package: bash'', ''Depends: libc6'']"
    by code_simp
  have n: "strip ''Package: bash'' \<noteq> []" "strip ''Depends: libc6'' \<noteq> []"
    by code_simp+
  from s n have h: "\<forall>l\<in>set (split_on (CHR ''\<newline>'') ''Package: bash\<newline>Depends: libc6'').
      strip l \<noteq> []"
    by simp
  from parse_unterminated_record[OF h, of "''Package: libc6\<newline>''"] s n show ?thesis by simp
qed

text \<open>
  Claim C10: let a record start at the beginning of the text or after a blank line, be
  followed by a blank line, and parse on its own to the entry \<open>P\<close> with the dependency
  list \<open>D\<close>; let the text after it commit no record named \<open>P\<close>. Then the parser returns
  an index, and its entry for \<open>P\<close> is \<open>D\<close>, whatever the lines before hold: an earlier
  record named \<open>P\<close> is overwritten by the later one, not merged with it and not
  rejected.
\<close>

theorem parse_duplicate_overwrites:
  assumes "text_lines (pre @ rs @ b # post)" and "pre = [] \<or> strip (last pre) = []"
    and "record_lines rs" and "strip b = []"
    and "parse_packages_data (join ''\<newline>'' (rs @ [b])) = Inr [(P, D)]"
    and "\<forall>ip. parse_packages_data (join ''\<newline>'' post) = Inr ip \<longrightarrow> \<not> dict_contains ip P"
  shows "\<exists>idx. parse_packages_data (join ''\<newline>'' (pre @ rs @ b # post)) = Inr idx \<and>
    map_of idx P = Some D"
proof -
  from assms(1) have tl: "text_lines (rs @ [b])" "text_lines post"
    by (simp_all add: text_lines_def)
  from parse_loop_start[OF assms(2)] obtain i1 where
    1: "parse_loop ([], []) pre = Inr (i1, [])" by blast
  from parse_loop_ends_blank[of "rs @ [b]" "([], [])"] assms(4) obtain j where
    a: "parse_loop ([], []) (rs @ [b]) = Inr (j, [])" by auto
  from parse_join[OF _ tl(1) a] assms(5) have j: "j = [(P, D)]" by simp
  have "map_of i1 = map_of i1 ++ map_of ([] :: package_index)" by simp
  from parse_loop_merge[OF a this] j obtain i2 where
    2: "parse_loop (i1, []) (rs @ [b]) = Inr (i2, [])" and
    m2: "map_of i2 = map_of i1 ++ map_of [(P, D)]" by blast
  from parse_loop_total obtain ip cp where
    p: "parse_loop ([], []) post = Inr (ip, cp)" by blast
  have np: "map_of ip P = None"
  proof (cases "post = []")
    case True
    with p show ?thesis by simp
  next
    case False
    from parse_join[OF False tl(2) p] assms(6) show ?thesis by (simp add: dict_contains_def)
  qed
  have "map_of i2 = map_of i2 ++ map_of ([] :: package_index)" by simp
  from parse_loop_merge[OF p this] obtain i3 where
    3: "parse_loop (i2, []) post = Inr (i3, cp)" and
    m3: "map_of i3 = map_of i2 ++ map_of ip" by blast
  have "parse_loop ([], []) (pre @ (rs @ [b]) @ post) = Inr (i3, cp)"
    using 1 2 3 by (simp only: parse_loop_append sum.case)
  then have "parse_loop ([], []) (pre @ rs @ b # post) = Inr (i3, cp)" by simp
  from parse_join[OF _ assms(1) this]
  have "parse_packages_data (join ''\<newline>'' (pre @ rs @ b # post)) = Inr i3" by simp
  moreover have "map_of i3 P = Some D"
    using m3 m2 np by (simp add: map_add_def)
  ultimately show ?thesis by blast
qed

theorem parse_duplicate_overwrites_witness:
  "parse_packages_data (join ''\<newline>'' [''Package: a'', ''Depends: x'', '''']) = Inr [(''a'', [''x''])] \<and>
   parse_packages_data (join ''\<newline>'' [''Package: a'', ''Depends: y, z'', '''']) =
     Inr [(''a'', [''y'', ''z''])] \<and>
   (\<exists>idx. parse_packages_data
      (join ''\<newline>'' [''Package: a'', ''Depends: x'', '''', ''Package: a'', ''Depends: y, z'', '''',
         ''Package: b'', '''']) = Inr idx \<and>
      map_of idx ''a'' = Some [''y'', ''z''])"
proof -
  have h0: "parse_packages_data (join ''\<newline>'' [''Package: a'', ''Depends: x'', '''']) =
    Inr [(''a'', [''x''])]" by code_simp
  have h1: "text_lines ([''Package: a'', ''Depends: x'', ''''] @ [''Package: a'', ''Depends: y, z''] @
      '''' # [''Package: b'', ''''])" by code_simp
  have h2: "[''Package: a'', ''Depends: x'', ''''] = [] \<or>
      strip (last [''Package: a'', ''Depends: x'', '''']) = []" by code_simp
  have h3: "record_lines [''Package: a'', ''Depends: y, z'']" by code_simp
  have h4: "strip '''' = []" by code_simp
  have h5: "parse_packages_data (join ''\<newline>'' ([''Package: a'', ''Depends: y, z''] @ [''''])) =
    Inr [(''a'', [''y'', ''z''])]" by code_simp
  have "parse_packages_data (join ''\<newline>'' [''Package: b'', '''']) = Inr [(''b'', [])]"
    by code_simp
  then have h6: "\<forall>ip. parse_packages_data (join ''\<newline>'' [''Package: b'', '''']) = Inr ip \<longrightarrow>
      \<not> dict_contains ip ''a''"
    by (simp add: dict_contains_def)
  from parse_duplicate_overwrites[OF h1 h2 h3 h4 h5 h6] h0 h5 show ?thesis by simp
qed

end
